theory Spec2Isabelle
  imports Complex_Main
begin

section \<open>Aquila-Resolve: the batched phoneme predictor\<close>

text \<open>
  The development follows \<^verbatim>\<open>models/dp/model/predictor.py\<close>. Python integers are
  \<open>int\<close>; a Python float is the \<open>real\<close> it denotes, and a float multiplication rounds
  its exact result to the nearest binary64 number (\<open>fl\<close> below); a \<^verbatim>\<open>str\<close> is a
  \<open>string\<close>, a \<^verbatim>\<open>dict\<close> is a map, a raised exception is the left injection of a
  sum.
\<close>

datatype py_error =
  KeyError | IndexError | FileNotFoundError | RuntimeError | HTTPError | ConnectionError
  | ModelError | CheckpointError

record Prediction =
  word :: string
  phonemes :: string
  phoneme_tokens :: "string list"
  confidence :: real
  token_probs :: "real list"

text \<open>The dictionary handed to \<^verbatim>\<open>model.generate\<close>: the padded token rows (key
  \<^verbatim>\<open>'text'\<close>, here \<open>text_padded\<close>), the true lengths and one start index per row.\<close>

record model_batch =
  text_padded :: "int list list"
  text_len :: "nat list"
  start_index :: "int list"

text \<open>
  The tokenizers and the sequence model are not part of the sources; a predictor holds them
  as functions. \<open>text_tokenizer\<close> is \<^verbatim>\<open>text_tokenizer(sentence, language)\<close>,
  \<open>text_decode\<close> and \<open>phoneme_decode\<close> are the two \<^verbatim>\<open>decode(sequence,
  remove_special_tokens)\<close> methods, \<open>get_start_index\<close> is
  \<^verbatim>\<open>phoneme_tokenizer._get_start_index\<close>, \<open>end_index\<close> is
  \<^verbatim>\<open>phoneme_tokenizer.end_index\<close>. \<open>generate\<close> is \<^verbatim>\<open>model.generate\<close>; it may raise.
\<close>

record Predictor =
  text_tokenizer :: "string \<Rightarrow> string \<Rightarrow> int list"
  text_decode :: "int list \<Rightarrow> bool \<Rightarrow> string list"
  phoneme_decode :: "int list \<Rightarrow> bool \<Rightarrow> string list"
  get_start_index :: "string \<Rightarrow> int"
  end_index :: int
  generate :: "model_batch \<Rightarrow> py_error + (int list list \<times> real list list)"

type_synonym predictions = "string \<rightharpoonup> (int list \<times> real list)"

subsection \<open>Helpers that the predictor imports\<close>

text \<open>Modelled from the spec: \<^verbatim>\<open>preprocessing.utils.u_batchify\<close> is not in the sources.
  The spec: "partition sorted words into chunks of at most \<open>batch_size\<close>". The spec speaks
  of positive batch sizes only; for \<open>0\<close> the model yields no chunk.\<close>

function u_batchify :: "'a list \<Rightarrow> nat \<Rightarrow> 'a list list" where
  "u_batchify xs n =
     (if xs = [] \<or> n = 0 then [] else take n xs # u_batchify (drop n xs) n)"
  by pat_completeness auto
termination
  by (relation "measure (\<lambda>(xs, n). length xs)") auto

declare u_batchify.simps [simp del]

subsection \<open>Python floats\<close>

text \<open>Rounding to the nearest integer, ties to the even one.\<close>

definition round_half_even :: "real \<Rightarrow> int" where
  "round_half_even y =
     (let f = \<lfloor>y\<rfloor>
      in if y - of_int f < 1 / 2 then f
         else if 1 / 2 < y - of_int f then f + 1
         else if even f then f else f + 1)"

text \<open>The exponent of the unit in the last place of a binary64 number near \<open>x\<close>: 52 below
  the exponent of \<open>x\<close>, and \<open>- 1074\<close> throughout the subnormal range.\<close>

definition ulp_exponent :: "real \<Rightarrow> int" where
  "ulp_exponent x = max \<lfloor>log 2 \<bar>x\<bar>\<rfloor> (- 1022) - 52"

text \<open>The binary64 number that an arithmetic operation with exact result \<open>x\<close> returns
  (IEEE 754, round to nearest, ties to even): \<open>x\<close> rounded to a multiple of its unit in the
  last place. A result below half the least subnormal \<open>2 powi (- 1074)\<close> is \<open>0\<close>. Overflow
  to infinity is left out: it needs a result above \<open>2 powi 1023\<close>, which a product of
  probabilities is not.\<close>

definition fl :: "real \<Rightarrow> real" where
  "fl x =
     (if x = 0 then 0
      else of_int (round_half_even (x / 2 powi ulp_exponent x)) * 2 powi ulp_exponent x)"

text \<open>Modelled from the spec: \<^verbatim>\<open>preprocessing.utils.u_product\<close> is not in the sources.
  The spec: "confidence as the product of the stored probabilities (empty probability
  sequence \<open>\<Rightarrow>\<close> confidence defined as 0, not 1)". The product is one of Python floats,
  taken from the left and starting at \<open>1\<close>, each multiplication rounded.\<close>

definition u_product :: "real list \<Rightarrow> real" where
  "u_product probs = (if probs = [] then 0 else foldl (\<lambda>prob p. fl (prob * p)) 1 probs)"

text \<open>Modelled from the spec: \<^verbatim>\<open>model.utils._get_len_util_stop\<close> is not in the sources.
  The spec: "truncate the generated output at the first occurrence of the stop id
  (exclusive) [...] if no stop id occurs before a fixed maximum length, use the full
  generated length". The value is the length that the caller's slice keeps.\<close>

fun get_len_util_stop :: "int list \<Rightarrow> int \<Rightarrow> nat" where
  "get_len_util_stop [] stop = 0"
| "get_len_util_stop (v # vs) stop =
     (if v = stop then 0 else Suc (get_len_util_stop vs stop))"

text \<open>\<^verbatim>\<open>torch.nn.utils.rnn.pad_sequence(batch_first=True, padding_value=0)\<close>: every row is
  filled on the right with \<open>0\<close> up to the longest row.\<close>

definition pad_sequence :: "int list list \<Rightarrow> int list list" where
  "pad_sequence seqs =
     (let m = foldr max (map length seqs) 0
      in map (\<lambda>s. s @ replicate (m - length s) 0) seqs)"

subsection \<open>\<^verbatim>\<open>Predictor._predict_batch\<close>\<close>

text \<open>Lines 95-110: the batch built from one chunk of texts.\<close>

definition make_batch :: "Predictor \<Rightarrow> string \<Rightarrow> string list \<Rightarrow> model_batch" where
  "make_batch P language text_batch =
     (let inputs = map (\<lambda>t. text_tokenizer P t language) text_batch;
          input_batch = pad_sequence inputs
      in \<lparr> text_padded = input_batch,
           text_len = map length inputs,
           start_index = replicate (length input_batch) (get_start_index P language) \<rparr>)"

text \<open>Lines 114-116: the loop over \<^verbatim>\<open>zip(text_batch, output_batch, probs_batch)\<close>; the zip
  stops with the shortest of the three.\<close>

fun store_outputs ::
  "Predictor \<Rightarrow> predictions \<Rightarrow> string list \<Rightarrow> int list list \<Rightarrow> real list list \<Rightarrow> predictions"
where
  "store_outputs P preds (t # ts) (output # outs) (probs # ps) =
     (let seq_len = get_len_util_stop output (end_index P)
      in store_outputs P (preds(t \<mapsto> (take seq_len output, take seq_len probs))) ts outs ps)"
| "store_outputs P preds ts outs ps = preds"

text \<open>Lines 94-116: the loop over the chunks. The first component of the result lists the
  calls of \<^verbatim>\<open>model.generate\<close> in the order they are made, each with the chunk of
  texts its rows come from; the second is the dictionary, or the exception of the call
  that raised.\<close>

type_synonym model_call = "string list \<times> model_batch"

fun predict_batches ::
  "Predictor \<Rightarrow> string \<Rightarrow> predictions \<Rightarrow> string list list
     \<Rightarrow> model_call list \<times> (py_error + predictions)"
where
  "predict_batches P language preds [] = ([], Inr preds)"
| "predict_batches P language preds (text_batch # rest) =
     (let batch = make_batch P language text_batch
      in case generate P batch of
           Inl e \<Rightarrow> ([(text_batch, batch)], Inl e)
         | Inr (output_batch, probs_batch) \<Rightarrow>
             (let (calls, r) = predict_batches P language
                     (store_outputs P preds text_batch output_batch probs_batch) rest
              in ((text_batch, batch) # calls, r)))"

definition predict_batch ::
  "Predictor \<Rightarrow> string list \<Rightarrow> nat \<Rightarrow> string \<Rightarrow> model_call list \<times> (py_error + predictions)"
where
  "predict_batch P texts batch_size language =
     predict_batches P language Map.empty (u_batchify texts batch_size)"

subsection \<open>\<^verbatim>\<open>Predictor.__call__\<close>\<close>

text \<open>Lines 53-60: words whose decoded input is empty get the empty prediction, the others
  are added to the set \<open>valid_texts\<close>. The set is kept as the sequence of its
  insertions; the order in which Python later iterates it is a parameter of
  \<open>predict\<close>.\<close>

fun prefilter ::
  "Predictor \<Rightarrow> string \<Rightarrow> string list \<Rightarrow> predictions \<times> string list
     \<Rightarrow> predictions \<times> string list"
where
  "prefilter P lang [] acc = acc"
| "prefilter P lang (w # ws) (preds, valid) =
     (let input = text_tokenizer P w lang;
          decoded = text_decode P input True
      in if length decoded = 0
         then prefilter P lang ws (preds(w \<mapsto> ([], [])), valid)
         else prefilter P lang ws (preds, valid @ [w]))"

text \<open>Lines 69-78: one result object.\<close>

definition make_prediction :: "Predictor \<Rightarrow> string \<Rightarrow> int list \<times> real list \<Rightarrow> Prediction" where
  "make_prediction P w tp =
     (case tp of (tokens, probs) \<Rightarrow>
        \<lparr> word = w,
          phonemes = concat (phoneme_decode P tokens True),
          phoneme_tokens = phoneme_decode P tokens False,
          confidence = u_product probs,
          token_probs = probs \<rparr>)"

text \<open>Lines 67-80: \<^verbatim>\<open>predictions[word]\<close> raises \<^verbatim>\<open>KeyError\<close> for a word without an
  entry.\<close>

fun assemble :: "Predictor \<Rightarrow> predictions \<Rightarrow> string list \<Rightarrow> py_error + Prediction list" where
  "assemble P preds [] = Inr []"
| "assemble P preds (w # ws) =
     (case preds w of
        None \<Rightarrow> Inl KeyError
      | Some tp \<Rightarrow>
          (case assemble P preds ws of
             Inl e \<Rightarrow> Inl e
           | Inr out \<Rightarrow> Inr (make_prediction P w tp # out)))"

text \<open>An iteration order of Python sets: the order in which \<^verbatim>\<open>list(s)\<close> lists a set
  given by its insertions. It lists every member once; beyond that it depends on the
  hashes of the strings, which Python seeds per process.\<close>

definition set_order :: "(string list \<Rightarrow> string list) \<Rightarrow> bool" where
  "set_order set_iter = (\<forall>xs. set (set_iter xs) = set xs \<and> distinct (set_iter xs))"

text \<open>Lines 49-80. \<^verbatim>\<open>sorted\<close> is stable, as \<open>sort_key\<close> is.\<close>

definition predict ::
  "Predictor \<Rightarrow> (string list \<Rightarrow> string list) \<Rightarrow> string list \<Rightarrow> string \<Rightarrow> nat
     \<Rightarrow> model_call list \<times> (py_error + Prediction list)"
where
  "predict P set_iter words lang batch_size =
     (let (predictions, inserted) = prefilter P lang words (Map.empty, []);
          valid_texts = sort_key length (set_iter inserted);
          (calls, r) = predict_batch P valid_texts batch_size lang
      in case r of
           Inl e \<Rightarrow> (calls, Inl e)
         | Inr batch_pred \<Rightarrow> (calls, assemble P (predictions ++ batch_pred) words))"

text \<open>Lines 49-65: the dictionary \<^verbatim>\<open>predictions\<close> as it stands when the loop of line 68
  starts, or the exception of \<^verbatim>\<open>_predict_batch\<close>. \<open>predict\<close> is \<open>assemble\<close> on this
  dictionary.\<close>

definition stored_predictions ::
  "Predictor \<Rightarrow> (string list \<Rightarrow> string list) \<Rightarrow> string list \<Rightarrow> string \<Rightarrow> nat
     \<Rightarrow> py_error + predictions"
where
  "stored_predictions P set_iter words lang batch_size =
     (let (predictions, inserted) = prefilter P lang words (Map.empty, []);
          valid_texts = sort_key length (set_iter inserted);
          (calls, r) = predict_batch P valid_texts batch_size lang
      in case r of
           Inl e \<Rightarrow> Inl e
         | Inr batch_pred \<Rightarrow> Inr (predictions ++ batch_pred))"

subsection \<open>Notions used in the statements\<close>

text \<open>The test of lines 54-57: the decoded input of the word is empty.\<close>

definition degenerate :: "Predictor \<Rightarrow> string \<Rightarrow> string \<Rightarrow> bool" where
  "degenerate P lang w = (length (text_decode P (text_tokenizer P w lang) True) = 0)"

text \<open>Line 116: what is stored for one row of the model's output.\<close>

definition stored_row :: "Predictor \<Rightarrow> int list \<Rightarrow> real list \<Rightarrow> int list \<times> real list" where
  "stored_row P out probs =
     (take (get_len_util_stop out (end_index P)) out,
      take (get_len_util_stop out (end_index P)) probs)"

text \<open>The model answers every batch, with at least one output row and one probability row
  per text.\<close>

definition well_shaped :: "Predictor \<Rightarrow> string \<Rightarrow> bool" where
  "well_shaped P lang =
     (\<forall>tb. \<exists>outs ps. generate P (make_batch P lang tb) = Inr (outs, ps)
         \<and> length tb \<le> length outs \<and> length tb \<le> length ps)"

text \<open>The model answers every batch, and what is stored for a text depends on that text alone
  (\<open>g\<close>), not on the other rows of its batch nor on the padding.\<close>

definition rowwise :: "Predictor \<Rightarrow> string \<Rightarrow> (string \<Rightarrow> int list \<times> real list) \<Rightarrow> bool" where
  "rowwise P lang g =
     (\<forall>tb. tb \<noteq> [] \<longrightarrow>
        (\<exists>outs ps. generate P (make_batch P lang tb) = Inr (outs, ps)
           \<and> length tb \<le> length outs \<and> length tb \<le> length ps
           \<and> (\<forall>i<length tb. stored_row P (outs ! i) (ps ! i) = g (tb ! i))))"

subsection \<open>Two small predictors\<close>

text \<open>A tokenizer that drops \<open>!\<close>, a model that echoes the padded rows (its answer for a
  text depends on the padding, hence on the batch), a model that answers with the true
  length of each row (its answer depends on the text alone), a model that raises, and a model
  that is very unsure of each of its nine tokens.\<close>

definition toy_tokenizer :: "string \<Rightarrow> string \<Rightarrow> int list" where
  "toy_tokenizer sentence language =
     map (\<lambda>c. if c = CHR ''a'' then 1 else 2) (filter (\<lambda>c. c \<noteq> CHR ''!'') sentence)"

definition toy_text_decode :: "int list \<Rightarrow> bool \<Rightarrow> string list" where
  "toy_text_decode sequence remove_special_tokens =
     map (\<lambda>t. if t = 1 then ''a'' else ''b'') sequence"

definition toy_phoneme_decode :: "int list \<Rightarrow> bool \<Rightarrow> string list" where
  "toy_phoneme_decode sequence remove_special_tokens =
     map (\<lambda>t. if t = 0 then ''<pad>'' else if t = 1 then ''[AH]'' else ''[B]'')
       (if remove_special_tokens then filter (\<lambda>t. t \<noteq> 0) sequence else sequence)"

definition toy_predictor ::
  "(model_batch \<Rightarrow> py_error + (int list list \<times> real list list)) \<Rightarrow> Predictor" where
  "toy_predictor gen =
     \<lparr> text_tokenizer = toy_tokenizer, text_decode = toy_text_decode,
       phoneme_decode = toy_phoneme_decode, get_start_index = (\<lambda>language. 1),
       end_index = 9, generate = gen \<rparr>"

definition echo_generate :: "model_batch \<Rightarrow> py_error + (int list list \<times> real list list)" where
  "echo_generate batch =
     Inr (text_padded batch, map (map (\<lambda>t. 1 / 2)) (text_padded batch))"

definition len_generate :: "model_batch \<Rightarrow> py_error + (int list list \<times> real list list)" where
  "len_generate batch =
     Inr (map (\<lambda>n. [int n + 10, 9, 7]) (text_len batch),
          map (\<lambda>n. [1 / 2, 1 / 4, 1]) (text_len batch))"

definition failing_generate :: "model_batch \<Rightarrow> py_error + (int list list \<times> real list list)" where
  "failing_generate batch = Inl ModelError"

definition tiny_prob :: real where
  "tiny_prob = 2 powi (- 120)"

definition tiny_generate :: "model_batch \<Rightarrow> py_error + (int list list \<times> real list list)" where
  "tiny_generate batch =
     Inr (map (\<lambda>n. [2, 2, 2, 2, 2, 2, 2, 2, 2, 9]) (text_len batch),
          map (\<lambda>n. [tiny_prob, tiny_prob, tiny_prob, tiny_prob, tiny_prob, tiny_prob,
                     tiny_prob, tiny_prob, tiny_prob, 1]) (text_len batch))"

section \<open>\<^verbatim>\<open>infer.py\<close>\<close>

text \<open>\<^verbatim>\<open>str.replace(old, new)\<close>: the occurrences of \<open>old\<close> are replaced from the left and do
  not overlap; an empty \<open>old\<close> matches before every character and at the end.\<close>

function str_replace :: "string \<Rightarrow> string \<Rightarrow> string \<Rightarrow> string" where
  "str_replace old new s =
     (if old = [] then new @ concat (map (\<lambda>c. c # new) s)
      else if s = [] then []
      else if take (length old) s = old
        then new @ str_replace old new (drop (length old) s)
        else hd s # str_replace old new (tl s))"
  by pat_completeness auto
termination
  by (relation "measure (\<lambda>(old, new, s). length s)") auto

declare str_replace.simps [simp del]

text \<open>\<^verbatim>\<open>sep.join(xs)\<close>.\<close>

fun str_join :: "string \<Rightarrow> string list \<Rightarrow> string" where
  "str_join sep [] = []"
| "str_join sep [x] = x"
| "str_join sep (x # y # ys) = x @ sep @ str_join sep (y # ys)"

text \<open>Line 28, for one string of the result.\<close>

definition strip_brackets :: "string \<Rightarrow> string" where
  "strip_brackets r = str_replace '']'' '''' (str_replace ''['' '''' (str_replace '']['' '' '' r))"

text \<open>\<^verbatim>\<open>Infer.__call__\<close>. The phonemizer is not part of the sources: \<open>phonemise_list\<close> stands for
  \<^verbatim>\<open>self.model.phonemise_list(words, lang, batch_size).phonemes\<close>, called with the language
  and the batch size that \<^verbatim>\<open>__init__\<close> sets.\<close>

definition infer_call :: "(string list \<Rightarrow> string \<Rightarrow> nat \<Rightarrow> string list) \<Rightarrow> string list \<Rightarrow> string list" where
  "infer_call phonemise_list words =
     (let res = phonemise_list words ''en_us'' 32
      in map strip_brackets res)"

text \<open>The string that a phoneme tokenizer with bracketed symbols yields for a sequence of
  phoneme names.\<close>

definition bracketed :: "string list \<Rightarrow> string" where
  "bracketed ps = concat (map (\<lambda>p. ''['' @ p @ '']'') ps)"

text \<open>The first replacement of line 28 as a recursion over the string: a pair \<open>][\<close>
  becomes one space. It is shown below to be what \<open>str_replace\<close> computes.\<close>

fun fold_pairs :: "string \<Rightarrow> string" where
  "fold_pairs (c # d # r) =
     (if c = CHR '']'' \<and> d = CHR ''['' then CHR '' '' # fold_pairs r else c # fold_pairs (d # r))"
| "fold_pairs r = r"

section \<open>\<^verbatim>\<open>data/remote.py\<close> and \<^verbatim>\<open>Infer.__init__\<close>\<close>

text \<open>The whitespace of \<^verbatim>\<open>str.split()\<close>, that is \<^verbatim>\<open>str.isspace\<close>, for the code points
  below 256, which a \<open>char\<close> holds: the controls \<open>0x09\<close> to \<open>0x0D\<close> and \<open>0x1C\<close> to
  \<open>0x1F\<close>, the space, the next-line control \<open>0x85\<close> and the no-break space \<open>0xA0\<close>.\<close>

definition is_space :: "char \<Rightarrow> bool" where
  "is_space c = (c = CHR 0x09 \<or> c = CHR 0x0A \<or> c = CHR 0x0B \<or> c = CHR 0x0C \<or> c = CHR 0x0D
      \<or> c = CHR 0x1C \<or> c = CHR 0x1D \<or> c = CHR 0x1E \<or> c = CHR 0x1F
      \<or> c = CHR 0x20 \<or> c = CHR 0x85 \<or> c = CHR 0xA0)"

text \<open>\<^verbatim>\<open>s.split()\<close>: the maximal runs of characters that are not whitespace.\<close>

function py_split :: "string \<Rightarrow> string list" where
  "py_split s =
     (let s' = dropWhile is_space s
      in if s' = [] then []
         else takeWhile (\<lambda>c. \<not> is_space c) s' # py_split (dropWhile (\<lambda>c. \<not> is_space c) s'))"
  by pat_completeness auto
termination
proof (relation "measure length", goal_cases)
  case 1
  then show ?case by simp
next
  case (2 s s')
  then obtain x xs where x: "dropWhile is_space s = x # xs" by (cases "dropWhile is_space s") auto
  then have "\<not> is_space x" using hd_dropWhile [of is_space s] by auto
  then have "length (dropWhile (\<lambda>c. \<not> is_space c) (x # xs)) \<le> length xs"
    by (simp add: length_dropWhile_le)
  also have "length xs < length (dropWhile is_space s)" by (simp add: x)
  also have "\<dots> \<le> length s" by (rule length_dropWhile_le)
  finally show ?case using 2 x by simp
qed

declare py_split.simps [simp del]

text \<open>\<^verbatim>\<open>s.startswith(p)\<close>.\<close>

definition startswith :: "string \<Rightarrow> string \<Rightarrow> bool" where
  "startswith s p = (take (length p) s = p)"

text \<open>What the functions of \<^verbatim>\<open>remote.py\<close> read and change. The remote side: the answer to
  the request for the Git LFS pointer (its text, or the exception of \<^verbatim>\<open>requests.get\<close>)
  and the course of the transfer of the model. The local side: the content of
  \<^verbatim>\<open>data/model.pt\<close> when the file exists, and the warnings issued so far.\<close>

datatype warning = NoRemoteChecksum | ChecksumMismatch

text \<open>The course of lines 31-34. \<open>RequestFails\<close>: \<^verbatim>\<open>requests.get\<close> or
  \<^verbatim>\<open>raise_for_status\<close> raises; nothing has been written. \<open>OpenFails\<close>:
  \<^verbatim>\<open>_model.open('wb')\<close> raises; nothing has been written. \<open>CopyFails\<close>: the file has been
  opened for writing, which empties it, and \<^verbatim>\<open>shutil.copyfileobj\<close> raises after the given
  part of the content has been written; the \<^verbatim>\<open>with\<close> block closes the file and the part
  stays. \<open>Complete\<close>: the whole content is written.\<close>

datatype transfer =
  RequestFails py_error | OpenFails py_error | CopyFails py_error string | Complete string

record remote =
  ptr_response :: "py_error + string"
  model_response :: transfer

record local_state =
  model_file :: "string option"
  warnings :: "warning list"

text \<open>\<^verbatim>\<open>check_model\<close>, lines 12-20 of \<^verbatim>\<open>remote.py\<close>. \<open>sha\<close> is \<^verbatim>\<open>get_checksum\<close> on the
  content of the file (the SHA-256 digest in hexadecimal); it raises when the file is
  missing.\<close>

definition check_model ::
  "(string \<Rightarrow> string) \<Rightarrow> remote \<Rightarrow> local_state \<Rightarrow> (py_error + bool) \<times> local_state" where
  "check_model sha R st =
     (case ptr_response R of
        Inl e \<Rightarrow> (Inl e, st)
      | Inr txt \<Rightarrow>
          (let result = py_split txt
           in if length result < 6 \<or> \<not> startswith (result ! 3) ''sha256:''
              then (Inr False, st\<lparr>warnings := warnings st @ [NoRemoteChecksum]\<rparr>)
              else (let remote_sha256 = drop 7 (result ! 3)
                    in case model_file st of
                         None \<Rightarrow> (Inl FileNotFoundError, st)
                       | Some content \<Rightarrow> (Inr (remote_sha256 = sha content), st))))"

text \<open>\<^verbatim>\<open>download\<close>, lines 23-35. The file is opened for writing only after
  \<^verbatim>\<open>raise_for_status\<close> has passed, and nothing removes it when the copy fails. After a
  complete copy the function returns \<^verbatim>\<open>_model.exists()\<close>, which then holds.\<close>

definition download ::
  "(string \<Rightarrow> string) \<Rightarrow> remote \<Rightarrow> bool \<Rightarrow> local_state \<Rightarrow> (py_error + bool) \<times> local_state" where
  "download sha R update st =
     (if \<not> update \<and> model_file st \<noteq> None then (Inr True, st)
      else
        (case (if update \<and> model_file st \<noteq> None then check_model sha R st else (Inr False, st)) of
           (Inl e, st1) \<Rightarrow> (Inl e, st1)
         | (Inr matches, st1) \<Rightarrow>
             if matches then (Inr True, st1)
             else (case model_response R of
                     RequestFails e \<Rightarrow> (Inl e, st1)
                   | OpenFails e \<Rightarrow> (Inl e, st1)
                   | CopyFails e part \<Rightarrow> (Inl e, st1\<lparr>model_file := Some part\<rparr>)
                   | Complete content \<Rightarrow> (Inr True, st1\<lparr>model_file := Some content\<rparr>))))"

text \<open>\<^verbatim>\<open>ensure_download\<close>, lines 38-44.\<close>

definition ensure_download ::
  "(string \<Rightarrow> string) \<Rightarrow> remote \<Rightarrow> local_state \<Rightarrow> (py_error + unit) \<times> local_state" where
  "ensure_download sha R st =
     (case download sha R False st of
        (Inl e, st1) \<Rightarrow> (Inl e, st1)
      | (Inr ok, st1) \<Rightarrow> if \<not> ok then (Inl RuntimeError, st1) else (Inr (), st1))"

text \<open>\<^verbatim>\<open>check_updates\<close>, lines 47-51.\<close>

definition check_updates ::
  "(string \<Rightarrow> string) \<Rightarrow> remote \<Rightarrow> local_state \<Rightarrow> (py_error + unit) \<times> local_state" where
  "check_updates sha R st =
     (case check_model sha R st of
        (Inl e, st1) \<Rightarrow> (Inl e, st1)
      | (Inr ok, st1) \<Rightarrow>
          if \<not> ok then (Inr (), st1\<lparr>warnings := warnings st1 @ [ChecksumMismatch]\<rparr>)
          else (Inr (), st1))"

text \<open>\<^verbatim>\<open>Infer.__init__\<close>, lines 12-18 of \<^verbatim>\<open>infer.py\<close>. \<open>from_checkpoint\<close> is
  \<^verbatim>\<open>Phonemizer.from_checkpoint\<close> on the content of the checkpoint file; it is not part of
  the sources and may raise.\<close>

record 'm Infer =
  infer_model :: 'm
  infer_lang :: string
  infer_batch_size :: nat

definition infer_init ::
  "(string \<Rightarrow> string) \<Rightarrow> (string \<Rightarrow> py_error + 'm) \<Rightarrow> remote \<Rightarrow> local_state
     \<Rightarrow> (py_error + 'm Infer) \<times> local_state" where
  "infer_init sha from_checkpoint R st =
     (case ensure_download sha R st of
        (Inl e, st1) \<Rightarrow> (Inl e, st1)
      | (Inr u, st1) \<Rightarrow>
          (case check_updates sha R st1 of
             (Inl e, st2) \<Rightarrow> (Inl e, st2)
           | (Inr u', st2) \<Rightarrow>
               (case model_file st2 of
                  None \<Rightarrow> (Inl FileNotFoundError, st2)
                | Some content \<Rightarrow>
                    (case from_checkpoint content of
                       Inl e \<Rightarrow> (Inl e, st2)
                     | Inr m \<Rightarrow>
                         (Inr \<lparr>infer_model = m, infer_lang = ''en_us'', infer_batch_size = 32\<rparr>,
                          st2)))))"

text \<open>The remote checksum, when the pointer text carries one.\<close>

definition remote_checksum :: "string \<Rightarrow> string option" where
  "remote_checksum txt =
     (let result = py_split txt
      in if length result < 6 \<or> \<not> startswith (result ! 3) ''sha256:'' then None
         else Some (drop 7 (result ! 3)))"

text \<open>A pointer text and a remote side for the examples; the checksum of the examples takes
  a content for its own digest.\<close>

definition lfs_pointer :: string where
  "lfs_pointer = ''version https://git-lfs.github.com/spec/v1 oid sha256:good size 4''"

definition toy_remote :: "transfer \<Rightarrow> remote" where
  "toy_remote answer = \<lparr>ptr_response = Inr lfs_pointer, model_response = answer\<rparr>"

section \<open>Truncation at the stop id\<close>

lemma get_len_util_stop_takeWhile:
  "get_len_util_stop vs stop = length (takeWhile (\<lambda>v. v \<noteq> stop) vs)"
  by (induction vs) auto

lemma take_get_len_util_stop:
  "take (get_len_util_stop vs stop) vs = takeWhile (\<lambda>v. v \<noteq> stop) vs"
  by (induction vs) auto

lemma store_outputs_other:
  "t \<notin> set ts \<Longrightarrow> store_outputs P preds ts outs ps t = preds t"
proof (induction ts arbitrary: preds outs ps)
  case Nil
  then show ?case by simp
next
  case (Cons a ts)
  then show ?case by (cases outs; cases ps) (auto simp: Let_def)
qed

lemma store_outputs_nth:
  "distinct ts \<Longrightarrow> i < length ts \<Longrightarrow> i < length outs \<Longrightarrow> i < length ps \<Longrightarrow>
   store_outputs P preds ts outs ps (ts ! i) = Some (stored_row P (outs ! i) (ps ! i))"
proof (induction ts arbitrary: i preds outs ps)
  case Nil
  then show ?case by simp
next
  case (Cons t ts)
  from Cons.prems obtain out outs' probs ps' where o: "outs = out # outs'" "ps = probs # ps'"
    by (cases outs; cases ps) auto
  show ?case
  proof (cases i)
    case 0
    with Cons.prems o show ?thesis
      by (simp add: Let_def store_outputs_other stored_row_def)
  next
    case (Suc j)
    with Cons.prems o have "store_outputs P (preds(t \<mapsto> stored_row P out probs)) ts outs' ps' (ts ! j)
        = Some (stored_row P (outs' ! j) (ps' ! j))"
      by (intro Cons.IH) auto
    with Suc o show ?thesis by (simp add: Let_def stored_row_def)
  qed
qed

lemma concat_u_batchify: "0 < n \<Longrightarrow> concat (u_batchify xs n) = xs"
proof (induction xs n rule: u_batchify.induct)
  case (1 xs n)
  then show ?case by (subst u_batchify.simps) auto
qed

lemma u_batchify_nonempty: "[] \<notin> set (u_batchify xs n)"
proof (induction xs n rule: u_batchify.induct)
  case (1 xs n)
  then show ?case by (subst u_batchify.simps) auto
qed

lemma u_batchify_length: "b \<in> set (u_batchify xs n) \<Longrightarrow> length b \<le> n"
proof (induction xs n rule: u_batchify.induct)
  case (1 xs n)
  from "1.prems" have "b \<in> set (if xs = [] \<or> n = 0 then [] else take n xs # u_batchify (drop n xs) n)"
    by (subst (asm) u_batchify.simps) simp
  with "1.IH" show ?case by (auto split: if_splits)
qed

lemma Union_u_batchify: "0 < n \<Longrightarrow> \<Union>(set ` set (u_batchify xs n)) = set xs"
proof -
  assume "0 < n"
  then have "set (concat (u_batchify xs n)) = set xs" by (simp add: concat_u_batchify)
  then show ?thesis by simp
qed

lemma prefilter_eq:
  "prefilter P lang ws (preds, valid) =
     ((\<lambda>w. if w \<in> set ws \<and> degenerate P lang w then Some ([], []) else preds w),
      valid @ filter (\<lambda>w. \<not> degenerate P lang w) ws)"
  by (induction ws arbitrary: preds valid) (auto simp: degenerate_def Let_def fun_eq_iff)

lemma store_outputs_dom_mono: "dom preds \<subseteq> dom (store_outputs P preds ts outs ps)"
proof (induction ts arbitrary: preds outs ps)
  case Nil
  then show ?case by simp
next
  case (Cons t ts)
  show ?case
  proof (cases "outs = [] \<or> ps = []")
    case True
    then show ?thesis by auto
  next
    case False
    then obtain out outs' probs ps' where o: "outs = out # outs'" "ps = probs # ps'"
      by (cases outs; cases ps) auto
    have "dom preds \<subseteq> dom (preds(t \<mapsto> stored_row P out probs))" by auto
    also have "\<dots> \<subseteq> dom (store_outputs P (preds(t \<mapsto> stored_row P out probs)) ts outs' ps')"
      by (rule Cons.IH)
    finally show ?thesis using o by (simp add: Let_def stored_row_def)
  qed
qed

lemma store_outputs_dom:
  "length ts \<le> length outs \<Longrightarrow> length ts \<le> length ps \<Longrightarrow>
   dom (store_outputs P preds ts outs ps) = dom preds \<union> set ts"
proof (induction ts arbitrary: preds outs ps)
  case Nil
  then show ?case by simp
next
  case (Cons t ts)
  then obtain out outs' probs ps' where o: "outs = out # outs'" "ps = probs # ps'"
    by (cases outs; cases ps) auto
  with Cons.prems have "dom (store_outputs P (preds(t \<mapsto> stored_row P out probs)) ts outs' ps')
      = dom (preds(t \<mapsto> stored_row P out probs)) \<union> set ts"
    by (intro Cons.IH) auto
  with o show ?case by (auto simp: Let_def stored_row_def)
qed

lemma store_outputs_rowwise:
  "length ts \<le> length outs \<Longrightarrow> length ts \<le> length ps \<Longrightarrow>
   \<forall>i<length ts. stored_row P (outs ! i) (ps ! i) = g (ts ! i) \<Longrightarrow>
   store_outputs P preds ts outs ps = (\<lambda>w. if w \<in> set ts then Some (g w) else preds w)"
proof (induction ts arbitrary: preds outs ps)
  case Nil
  then show ?case by simp
next
  case (Cons t ts)
  then obtain out outs' probs ps' where o: "outs = out # outs'" "ps = probs # ps'"
    by (cases outs; cases ps) auto
  from Cons.prems(3) o have hd: "stored_row P out probs = g t" by auto
  from Cons.prems(3) o have tl: "\<forall>i<length ts. stored_row P (outs' ! i) (ps' ! i) = g (ts ! i)"
    by auto
  from Cons.prems o have len: "length ts \<le> length outs'" "length ts \<le> length ps'" by auto
  have "store_outputs P (preds(t \<mapsto> g t)) ts outs' ps' =
        (\<lambda>w. if w \<in> set ts then Some (g w) else (preds(t \<mapsto> g t)) w)"
    by (rule Cons.IH [OF len tl])
  then have "store_outputs P preds (t # ts) outs ps =
        (\<lambda>w. if w \<in> set ts then Some (g w) else (preds(t \<mapsto> g t)) w)"
    using o hd by (simp add: Let_def stored_row_def)
  then show ?case by (auto simp: fun_eq_iff)
qed

lemma predict_batches_calls:
  "(tb, b) \<in> set (fst (predict_batches P lang preds bs)) \<Longrightarrow>
   tb \<in> set bs \<and> b = make_batch P lang tb"
proof (induction bs arbitrary: preds)
  case Nil
  then show ?case by simp
next
  case (Cons a bs)
  show ?case
  proof (cases "generate P (make_batch P lang a)")
    case (Inl e)
    with Cons.prems show ?thesis by (simp add: Let_def)
  next
    case (Inr op)
    obtain outs ps where op: "op = (outs, ps)" by (cases op)
    from Inr op Cons.prems
    have "(tb, b) = (a, make_batch P lang a) \<or>
          (tb, b) \<in> set (fst (predict_batches P lang (store_outputs P preds a outs ps) bs))"
      by (simp add: Let_def split_beta)
    with Cons.IH show ?thesis by auto
  qed
qed

lemma predict_batches_other:
  "snd (predict_batches P lang preds bs) = Inr preds' \<Longrightarrow> w \<notin> \<Union>(set ` set bs) \<Longrightarrow>
   preds' w = preds w"
proof (induction bs arbitrary: preds)
  case Nil
  then show ?case by simp
next
  case (Cons a bs)
  show ?case
  proof (cases "generate P (make_batch P lang a)")
    case (Inl e)
    with Cons.prems show ?thesis by (simp add: Let_def)
  next
    case (Inr op)
    obtain outs ps where op: "op = (outs, ps)" by (cases op)
    from Inr op Cons.prems
    have "snd (predict_batches P lang (store_outputs P preds a outs ps) bs) = Inr preds'"
      by (simp add: Let_def split_beta)
    moreover from Cons.prems have wb: "w \<notin> \<Union>(set ` set bs)" and wa: "w \<notin> set a" by auto
    ultimately have "preds' w = store_outputs P preds a outs ps w" using wb by (intro Cons.IH)
    with wa show ?thesis by (simp add: store_outputs_other)
  qed
qed

lemma predict_batches_dom:
  assumes "\<forall>tb\<in>set bs. \<exists>outs ps. generate P (make_batch P lang tb) = Inr (outs, ps)
             \<and> length tb \<le> length outs \<and> length tb \<le> length ps"
  shows "\<exists>preds'. snd (predict_batches P lang preds bs) = Inr preds'
            \<and> dom preds \<union> \<Union>(set ` set bs) \<subseteq> dom preds'"
  using assms
proof (induction bs arbitrary: preds)
  case Nil
  then show ?case by simp
next
  case (Cons tb bs)
  from Cons.prems obtain outs ps where g: "generate P (make_batch P lang tb) = Inr (outs, ps)"
    and len: "length tb \<le> length outs" "length tb \<le> length ps" by auto
  from Cons.prems have rest: "\<forall>tb\<in>set bs. \<exists>outs ps. generate P (make_batch P lang tb) = Inr (outs, ps)
             \<and> length tb \<le> length outs \<and> length tb \<le> length ps" by simp
  from Cons.IH [OF rest, of "store_outputs P preds tb outs ps"]
  obtain preds' where r: "snd (predict_batches P lang (store_outputs P preds tb outs ps) bs) = Inr preds'"
    and d: "dom (store_outputs P preds tb outs ps) \<union> \<Union>(set ` set bs) \<subseteq> dom preds'" by blast
  have "snd (predict_batches P lang preds (tb # bs)) = Inr preds'"
    using g r by (simp add: Let_def split_beta)
  moreover have "dom preds \<union> \<Union>(set ` set (tb # bs)) \<subseteq> dom preds'"
    using d store_outputs_dom [OF len, of P preds] by auto
  ultimately show ?case by blast
qed

lemma predict_batches_rowwise:
  assumes "rowwise P lang g" and "[] \<notin> set bs"
  shows "snd (predict_batches P lang preds bs) =
           Inr (\<lambda>w. if w \<in> \<Union>(set ` set bs) then Some (g w) else preds w)"
  using assms(2)
proof (induction bs arbitrary: preds)
  case Nil
  then show ?case by simp
next
  case (Cons tb bs)
  then have ne: "tb \<noteq> []" and rest: "[] \<notin> set bs" by auto
  from assms(1) ne obtain outs ps where g: "generate P (make_batch P lang tb) = Inr (outs, ps)"
    and len: "length tb \<le> length outs" "length tb \<le> length ps"
    and rows: "\<forall>i<length tb. stored_row P (outs ! i) (ps ! i) = g (tb ! i)"
    unfolding rowwise_def by blast
  have "snd (predict_batches P lang preds (tb # bs)) =
        snd (predict_batches P lang (store_outputs P preds tb outs ps) bs)"
    using g by (simp add: Let_def split_beta)
  also have "\<dots> = Inr (\<lambda>w. if w \<in> \<Union>(set ` set bs) then Some (g w)
                          else store_outputs P preds tb outs ps w)"
    by (rule Cons.IH [OF rest])
  also have "\<dots> = Inr (\<lambda>w. if w \<in> \<Union>(set ` set (tb # bs)) then Some (g w) else preds w)"
    by (auto simp: store_outputs_rowwise [OF len rows] fun_eq_iff)
  finally show ?case .
qed

lemma assemble_Inr:
  "assemble P preds ws = Inr out \<Longrightarrow>
   set ws \<subseteq> dom preds \<and> out = map (\<lambda>w. make_prediction P w (the (preds w))) ws"
  by (induction ws arbitrary: out) (auto split: option.splits sum.splits)

lemma assemble_map:
  "\<forall>w\<in>set ws. preds w = Some (f w) \<Longrightarrow>
   assemble P preds ws = Inr (map (\<lambda>w. make_prediction P w (f w)) ws)"
  by (induction ws) auto

lemma assemble_dom:
  "set ws \<subseteq> dom preds \<Longrightarrow> \<exists>out. assemble P preds ws = Inr out"
  by (induction ws) auto

lemma predict_unfold:
  "predict P si words lang bs =
     (let valid_texts = sort_key length (si (filter (\<lambda>w. \<not> degenerate P lang w) words));
          cr = predict_batch P valid_texts bs lang
      in case snd cr of
           Inl e \<Rightarrow> (fst cr, Inl e)
         | Inr batch_pred \<Rightarrow>
             (fst cr, assemble P
                ((\<lambda>w. if w \<in> set words \<and> degenerate P lang w then Some ([], []) else None)
                   ++ batch_pred) words))"
  by (simp add: predict_def prefilter_eq Let_def split_beta cong: sum.case_cong)

lemma predict_fst:
  "fst (predict P si words lang bs) =
     fst (predict_batch P
       (sort_key length (si (filter (\<lambda>w. \<not> degenerate P lang w) words))) bs lang)"
  by (simp add: predict_unfold Let_def split: sum.splits)

lemma predict_snd_Inr:
  "snd (predict P si words lang bs) = Inr out \<Longrightarrow>
   \<exists>batch_pred.
     snd (predict_batch P
       (sort_key length (si (filter (\<lambda>w. \<not> degenerate P lang w) words))) bs lang) = Inr batch_pred
     \<and> assemble P
          ((\<lambda>w. if w \<in> set words \<and> degenerate P lang w then Some ([], []) else None)
             ++ batch_pred) words = Inr out"
  by (simp add: predict_unfold Let_def split: sum.splits)

lemma u_batchify_subset: "b \<in> set (u_batchify xs n) \<Longrightarrow> set b \<subseteq> set xs"
proof (induction xs n rule: u_batchify.induct)
  case (1 xs n)
  from "1.prems"
  have "b \<in> set (if xs = [] \<or> n = 0 then [] else take n xs # u_batchify (drop n xs) n)"
    by (subst (asm) u_batchify.simps) simp
  with "1.IH" show ?case
    by (auto split: if_splits dest: in_set_takeD in_set_dropD)
qed

lemma predict_rowwise:
  assumes so: "set_order si" and rw: "rowwise P lang g" and bs: "0 < bs"
  shows "snd (predict P si words lang bs) =
     Inr (map (\<lambda>w. make_prediction P w (if degenerate P lang w then ([], []) else g w)) words)"
proof -
  define valid where "valid = sort_key length (si (filter (\<lambda>w. \<not> degenerate P lang w) words))"
  have sv: "set valid = {w \<in> set words. \<not> degenerate P lang w}"
    using so by (auto simp: valid_def set_order_def)
  have un: "\<Union>(set ` set (u_batchify valid bs)) = set valid"
    using bs by (rule Union_u_batchify)
  have bp: "snd (predict_batch P valid bs lang) =
      Inr (\<lambda>w. if w \<in> set valid then Some (g w) else None)"
    unfolding predict_batch_def
    using predict_batches_rowwise [OF rw u_batchify_nonempty, where preds = Map.empty]
    by (simp only: un)
  have "snd (predict P si words lang bs) =
      assemble P ((\<lambda>w. if w \<in> set words \<and> degenerate P lang w then Some ([], []) else None)
                   ++ (\<lambda>w. if w \<in> set valid then Some (g w) else None)) words"
    using bp by (simp add: predict_unfold Let_def valid_def [symmetric])
  also have "\<dots> = Inr (map (\<lambda>w. make_prediction P w
                 (if degenerate P lang w then ([], []) else g w)) words)"
    by (rule assemble_map) (auto simp: sv map_add_def)
  finally show ?thesis .
qed

lemma set_order_remdups: "set_order remdups"
  by (simp add: set_order_def)

lemma set_order_rev_remdups: "set_order (rev \<circ> remdups)"
  by (simp add: set_order_def)

lemma length_pad_sequence: "length (pad_sequence seqs) = length seqs"
  by (simp add: pad_sequence_def Let_def)

lemma well_shaped_echo: "well_shaped (toy_predictor echo_generate) lang"
  by (simp add: well_shaped_def toy_predictor_def echo_generate_def make_batch_def Let_def
      length_pad_sequence)

lemma rowwise_len:
  "rowwise (toy_predictor len_generate) lang
     (\<lambda>w. ([int (length (toy_tokenizer w lang)) + 10], [1 / 2]))"
  by (simp add: rowwise_def toy_predictor_def len_generate_def make_batch_def Let_def
      stored_row_def)

lemmas toy_defs = predict_def predict_batch_def u_batchify.simps make_batch_def pad_sequence_def
      toy_predictor_def echo_generate_def len_generate_def tiny_generate_def failing_generate_def
      toy_tokenizer_def toy_text_decode_def toy_phoneme_decode_def make_prediction_def Let_def

section \<open>Rounded products\<close>



lemma round_half_even_of_int: "round_half_even (of_int N) = N"
  by (simp add: round_half_even_def)



lemma log_2_powi: "log 2 (2 powi n) = of_int n"
proof -
  have "(2::real) powi n = 2 powr of_int n" by (simp add: powr_real_of_int')
  then show ?thesis by simp
qed

text \<open>A power of two in the normal range is a binary64 number.\<close>

lemma fl_power_of_two:
  assumes "- 1022 \<le> n"
  shows "fl (2 powi n) = 2 powi n"
proof -
  have k: "ulp_exponent (2 powi n) = n - 52"
    using assms by (simp add: ulp_exponent_def log_2_powi)
  have m: "(2::real) powi 52 = of_int (2 ^ 52)" by simp
  have "(2::real) powi n / 2 powi (n - 52) = 2 powi (n - (n - 52))"
    by (rule power_int_diff [symmetric]) simp
  then have q: "(2::real) powi n / 2 powi (n - 52) = of_int (2 ^ 52)"
    by (simp only: m [symmetric]) simp
  have r: "round_half_even (2 powi n / 2 powi (n - 52)) = 2 ^ 52"
    by (simp only: q round_half_even_of_int)
  have "fl (2 powi n) = of_int (2 ^ 52) * 2 powi (n - 52)"
    unfolding fl_def k r by simp
  also have "\<dots> = 2 powi 52 * 2 powi (n - 52)" by (simp only: m)
  also have "\<dots> = 2 powi (52 + (n - 52))" by (rule power_int_add [symmetric]) simp
  also have "\<dots> = 2 powi n" by simp
  finally show ?thesis .
qed







lemma fl_quarter: "fl (1 / 4) = 1 / 4"
  using fl_power_of_two [of "- 2"] by simp





section \<open>What \<^verbatim>\<open>_predict_batch\<close> stores\<close>

lemma u_batchify_zero: "u_batchify xs 0 = []"
  by (subst u_batchify.simps) simp

lemma distinct_u_batchify: "distinct xs \<Longrightarrow> distinct (concat (u_batchify xs n))"
  by (cases "n = 0") (simp_all add: u_batchify_zero concat_u_batchify)

lemma predict_batches_stored:
  "distinct (concat bs) \<Longrightarrow> snd (predict_batches P lang preds bs) = Inr m \<Longrightarrow> tb \<in> set bs \<Longrightarrow>
   generate P (make_batch P lang tb) = Inr (outs, ps) \<Longrightarrow>
   i < length tb \<Longrightarrow> i < length outs \<Longrightarrow> i < length ps \<Longrightarrow>
   m (tb ! i) = Some (stored_row P (outs ! i) (ps ! i))"
proof (induction bs arbitrary: preds)
  case Nil
  then show ?case by simp
next
  case (Cons a bs)
  show ?case
  proof (cases "generate P (make_batch P lang a)")
    case (Inl e)
    with Cons.prems(2) show ?thesis by (simp add: Let_def)
  next
    case (Inr op)
    obtain outs' ps' where op: "op = (outs', ps')" by (cases op)
    from Inr op Cons.prems(2)
    have r: "snd (predict_batches P lang (store_outputs P preds a outs' ps') bs) = Inr m"
      by (simp add: Let_def split_beta)
    from Cons.prems(1) have da: "distinct a" and db: "distinct (concat bs)"
      and dj: "set a \<inter> \<Union>(set ` set bs) = {}" by auto
    show ?thesis
    proof (cases "tb = a")
      case True
      with Inr op Cons.prems(4) have eq: "outs' = outs" "ps' = ps" by simp_all
      from True Cons.prems(5) dj have "tb ! i \<notin> \<Union>(set ` set bs)"
        by (metis disjoint_iff nth_mem)
      from predict_batches_other [OF r this]
      have "m (tb ! i) = store_outputs P preds a outs ps (tb ! i)" by (simp add: eq)
      also have "\<dots> = Some (stored_row P (outs ! i) (ps ! i))"
        unfolding True [symmetric]
        using da Cons.prems(5,6,7) True by (intro store_outputs_nth) simp_all
      finally show ?thesis .
    next
      case False
      with Cons.prems(3) have "tb \<in> set bs" by simp
      from Cons.IH [OF db r this Cons.prems(4,5,6,7)] show ?thesis .
    qed
  qed
qed

lemma predict_batches_total:
  "\<forall>tb\<in>set bs. \<exists>outs ps. generate P (make_batch P lang tb) = Inr (outs, ps) \<Longrightarrow>
   \<exists>m. snd (predict_batches P lang preds bs) = Inr m"
proof (induction bs arbitrary: preds)
  case Nil
  then show ?case by simp
next
  case (Cons a bs)
  then obtain outs ps where g: "generate P (make_batch P lang a) = Inr (outs, ps)" by auto
  from Cons.prems have "\<forall>tb\<in>set bs. \<exists>outs ps. generate P (make_batch P lang tb) = Inr (outs, ps)"
    by simp
  from Cons.IH [OF this, of "store_outputs P preds a outs ps"] g
  show ?case by (simp add: Let_def split_beta)
qed

lemma predict_batches_called:
  "snd (predict_batches P lang preds bs) = Inr m \<Longrightarrow> tb \<in> set bs \<Longrightarrow>
   (tb, make_batch P lang tb) \<in> set (fst (predict_batches P lang preds bs))"
proof (induction bs arbitrary: preds)
  case Nil
  then show ?case by simp
next
  case (Cons a bs)
  show ?case
  proof (cases "generate P (make_batch P lang a)")
    case (Inl e)
    with Cons.prems(1) show ?thesis by (simp add: Let_def)
  next
    case (Inr op)
    obtain outs ps where op: "op = (outs, ps)" by (cases op)
    from Inr op Cons.prems(1)
    have r: "snd (predict_batches P lang (store_outputs P preds a outs ps) bs) = Inr m"
      by (simp add: Let_def split_beta)
    from Cons.IH [OF r] Cons.prems(2) Inr op show ?thesis
      by (auto simp: Let_def split_beta)
  qed
qed

lemma stored_row_first_stop:
  assumes "k < length row" and "row ! k = end_index P" and "\<forall>j<k. row ! j \<noteq> end_index P"
  shows "stored_row P row probs = (take k row, take k probs)"
proof -
  have tw: "takeWhile (\<lambda>v. v \<noteq> end_index P) row = take k row"
    using assms by (intro takeWhile_eq_take_P_nth) auto
  have "get_len_util_stop row (end_index P) = length (take k row)"
    by (simp only: get_len_util_stop_takeWhile tw)
  then have "get_len_util_stop row (end_index P) = k"
    using assms(1) by simp
  then show ?thesis by (simp add: stored_row_def)
qed

lemma stored_row_no_stop:
  assumes "end_index P \<notin> set row"
  shows "stored_row P row probs = (row, take (length row) probs)"
proof -
  have tw: "takeWhile (\<lambda>v. v \<noteq> end_index P) row = row"
    using assms by (intro takeWhile_eq_all_conv [THEN iffD2]) auto
  have "get_len_util_stop row (end_index P) = length row"
    by (simp only: get_len_util_stop_takeWhile tw)
  then show ?thesis by (simp add: stored_row_def)
qed

lemma stored_row_excludes_stop: "end_index P \<notin> set (fst (stored_row P row probs))"
  by (auto simp: stored_row_def take_get_len_util_stop dest: set_takeWhileD)

lemma stored_predictions_unfold:
  "stored_predictions P si words lang bs =
     (case snd (predict_batch P
                  (sort_key length (si (filter (\<lambda>w. \<not> degenerate P lang w) words))) bs lang) of
        Inl e \<Rightarrow> Inl e
      | Inr batch_pred \<Rightarrow>
          Inr ((\<lambda>w. if w \<in> set words \<and> degenerate P lang w then Some ([], []) else None)
                 ++ batch_pred))"
  by (simp add: stored_predictions_def prefilter_eq Let_def split_beta cong: sum.case_cong)

lemma predict_stored:
  "snd (predict P si words lang bs) =
     (case stored_predictions P si words lang bs of
        Inl e \<Rightarrow> Inl e
      | Inr m \<Rightarrow> assemble P m words)"
  by (simp add: predict_unfold stored_predictions_unfold Let_def split: sum.splits)

lemma stored_predictions_degenerate:
  assumes "set_order si" and "degenerate P lang w" and "w \<in> set words"
    and "stored_predictions P si words lang bs = Inr m"
  shows "m w = Some ([], [])"
proof -
  define valid where
    "valid = sort_key length (si (filter (\<lambda>w. \<not> degenerate P lang w) words))"
  have "w \<notin> set valid" using assms(1,2) by (auto simp: valid_def set_order_def)
  then have nb: "w \<notin> \<Union>(set ` set (u_batchify valid bs))"
    by (auto dest: u_batchify_subset)
  from assms(4) obtain bp where
    bp: "snd (predict_batches P lang Map.empty (u_batchify valid bs)) = Inr bp"
    and m: "m = (\<lambda>w. if w \<in> set words \<and> degenerate P lang w then Some ([], []) else None) ++ bp"
    by (auto simp: stored_predictions_unfold valid_def predict_batch_def split: sum.splits)
  from predict_batches_other [OF bp nb] have "bp w = None" by simp
  then show ?thesis using assms(2,3) by (simp add: m map_add_def)
qed

lemma predict_returns:
  assumes "set_order si" and "0 < bs" and "well_shaped P lang"
  shows "\<exists>out. snd (predict P si words lang bs) = Inr out"
proof -
  define valid where
    "valid = sort_key length (si (filter (\<lambda>w. \<not> degenerate P lang w) words))"
  have sv: "set valid = {w \<in> set words. \<not> degenerate P lang w}"
    using assms(1) by (auto simp: valid_def set_order_def)
  have un: "\<Union>(set ` set (u_batchify valid bs)) = set valid"
    using assms(2) by (simp add: Union_u_batchify)
  have "\<forall>tb\<in>set (u_batchify valid bs).
          \<exists>outs ps. generate P (make_batch P lang tb) = Inr (outs, ps)
             \<and> length tb \<le> length outs \<and> length tb \<le> length ps"
    using assms(3) by (simp add: well_shaped_def)
  from predict_batches_dom [OF this, of Map.empty]
  obtain bp where bp: "snd (predict_batch P valid bs lang) = Inr bp"
    and d: "set valid \<subseteq> dom bp"
    unfolding predict_batch_def un by auto
  have "set words \<subseteq> dom ((\<lambda>w. if w \<in> set words \<and> degenerate P lang w then Some ([], [])
                             else None) ++ bp)"
    using d sv by (auto simp: map_add_def split: option.splits)
  from assemble_dom [OF this, of P]
  show ?thesis using bp by (simp add: predict_unfold Let_def valid_def [symmetric])
qed

lemma predict_all_degenerate:
  assumes "set_order si" and "\<forall>v\<in>set words. degenerate P lang v"
  shows "predict P si words lang bs =
           ([], Inr (map (\<lambda>v. make_prediction P v ([], [])) words))"
proof -
  have f: "filter (\<lambda>w. \<not> degenerate P lang w) words = []"
    using assms(2) by (simp add: filter_empty_conv)
  have "set (si []) = {}" using assms(1) by (simp add: set_order_def)
  then have i: "si [] = []" by simp
  have u: "u_batchify [] bs = []" by (subst u_batchify.simps) simp
  have "assemble P ((\<lambda>w. if w \<in> set words \<and> degenerate P lang w then Some ([], []) else None)
                     ++ Map.empty) words = Inr (map (\<lambda>v. make_prediction P v ([], [])) words)"
    by (rule assemble_map) (use assms(2) in auto)
  then show ?thesis by (simp add: predict_unfold f i u predict_batch_def Let_def)
qed

section \<open>The claims about the predictor\<close>

text \<open>Claim C3. Let \<^verbatim>\<open>_predict_batch\<close> return a dictionary for distinct texts (they come
  from a set). For every item of every chunk, with the rows that \<^verbatim>\<open>model.generate\<close>
  returned for the chunk: the call for the chunk has been made, and the dictionary holds for
  the item a token sequence without the stop id and a probability sequence no longer than
  it; when the row's first stop id is at position \<open>k\<close>, the two sequences are the first
  \<open>k\<close> elements of the token row and of the probability row; when the row has no stop
  id, the token sequence is the whole row and the probabilities are cut at its length.\<close>

theorem stored_output_truncated_at_stop:
  assumes "distinct texts"
    and "snd (predict_batch P texts batch_size lang) = Inr m"
    and "text_batch \<in> set (u_batchify texts batch_size)"
    and "generate P (make_batch P lang text_batch) = Inr (output_batch, probs_batch)"
    and "i < length text_batch" and "i < length output_batch" and "i < length probs_batch"
  shows "\<exists>tokens probs.
       m (text_batch ! i) = Some (tokens, probs)
     \<and> (text_batch, make_batch P lang text_batch)
          \<in> set (fst (predict_batch P texts batch_size lang))
     \<and> end_index P \<notin> set tokens
     \<and> length probs \<le> length tokens
     \<and> (\<forall>k<length (output_batch ! i).
          output_batch ! i ! k = end_index P \<and> (\<forall>j<k. output_batch ! i ! j \<noteq> end_index P) \<longrightarrow>
          tokens = take k (output_batch ! i) \<and> probs = take k (probs_batch ! i))
     \<and> (end_index P \<notin> set (output_batch ! i) \<longrightarrow>
          tokens = output_batch ! i
          \<and> probs = take (length (output_batch ! i)) (probs_batch ! i))"
proof -
  let ?row = "output_batch ! i" and ?pr = "probs_batch ! i"
  have d: "distinct (concat (u_batchify texts batch_size))"
    using assms(1) by (rule distinct_u_batchify)
  have s: "m (text_batch ! i) = Some (stored_row P ?row ?pr)"
    using d assms(2-7) unfolding predict_batch_def by (rule predict_batches_stored)
  have c: "(text_batch, make_batch P lang text_batch)
          \<in> set (fst (predict_batch P texts batch_size lang))"
    using assms(2,3) unfolding predict_batch_def by (rule predict_batches_called)
  have e: "end_index P \<notin> set (fst (stored_row P ?row ?pr))"
    by (rule stored_row_excludes_stop)
  have l: "length (snd (stored_row P ?row ?pr)) \<le> length (fst (stored_row P ?row ?pr))"
    by (simp add: stored_row_def get_len_util_stop_takeWhile takeWhile_eq_take [symmetric])
  have f: "\<forall>k<length ?row. ?row ! k = end_index P \<and> (\<forall>j<k. ?row ! j \<noteq> end_index P) \<longrightarrow>
      fst (stored_row P ?row ?pr) = take k ?row \<and> snd (stored_row P ?row ?pr) = take k ?pr"
    by (simp add: stored_row_first_stop)
  have n: "end_index P \<notin> set ?row \<longrightarrow>
      fst (stored_row P ?row ?pr) = ?row \<and> snd (stored_row P ?row ?pr) = take (length ?row) ?pr"
    by (simp add: stored_row_no_stop)
  show ?thesis
  proof (intro exI conjI)
    show "m (text_batch ! i) = Some (fst (stored_row P ?row ?pr), snd (stored_row P ?row ?pr))"
      using s by simp
  qed (use c e l f n in blast)+
qed

text \<open>Witness for C3: a chunk of two texts, once with rows that carry the stop id \<open>9\<close> in
  second place and once with rows without it.\<close>

theorem stored_output_truncated_at_stop_witness:
  "(\<exists>m. snd (predict_batch (toy_predictor len_generate) [''a'', ''bb''] 2 ''en_us'') = Inr m
        \<and> m ''a'' = Some ([11], [1 / 2]) \<and> m ''bb'' = Some ([12], [1 / 2]))
   \<and> (\<exists>m. snd (predict_batch (toy_predictor echo_generate) [''a'', ''bb''] 2 ''en_us'') = Inr m
        \<and> m ''a'' = Some ([1, 0], [1 / 2, 1 / 2]))"
proof -
  let ?m1 = "[''a'' \<mapsto> ([11], [1 / 2]), ''bb'' \<mapsto> ([12::int], [1 / 2::real])]"
  let ?m2 = "[''a'' \<mapsto> ([1, 0], [1 / 2, 1 / 2]), ''bb'' \<mapsto> ([2::int, 2], [1 / 2::real, 1 / 2])]"
  have u: "u_batchify [''a'', ''bb''] 2 = [[''a'', ''bb'']]"
    by (simp add: u_batchify.simps)
  have g1: "generate (toy_predictor len_generate)
              (make_batch (toy_predictor len_generate) ''en_us'' [''a'', ''bb'']) =
            Inr ([[11, 9, 7], [12, 9, 7]], [[1 / 2, 1 / 4, 1], [1 / 2, 1 / 4, 1]])"
    by (simp add: toy_defs)
  have g2: "generate (toy_predictor echo_generate)
              (make_batch (toy_predictor echo_generate) ''en_us'' [''a'', ''bb'']) =
            Inr ([[1, 0], [2, 2]], [[1 / 2, 1 / 2], [1 / 2, 1 / 2]])"
    by (simp add: toy_defs)
  have e1: "snd (predict_batch (toy_predictor len_generate) [''a'', ''bb''] 2 ''en_us'') = Inr ?m1"
    by (simp add: toy_defs)
  have e2: "snd (predict_batch (toy_predictor echo_generate) [''a'', ''bb''] 2 ''en_us'') = Inr ?m2"
    by (simp add: toy_defs)
  have "?m1 ''a'' = Some ([11], [1 / 2])"
    using stored_output_truncated_at_stop [of "[''a'', ''bb'']" "toy_predictor len_generate" 2
        "''en_us''" ?m1 "[''a'', ''bb'']" "[[11, 9, 7], [12, 9, 7]]"
        "[[1 / 2, 1 / 4, 1], [1 / 2, 1 / 4, 1]]" 0]
    by (simp add: e1 g1 u)
  moreover have "?m2 ''a'' = Some ([1, 0], [1 / 2, 1 / 2])"
    using stored_output_truncated_at_stop [of "[''a'', ''bb'']" "toy_predictor echo_generate" 2
        "''en_us''" ?m2 "[''a'', ''bb'']" "[[1, 0], [2, 2]]"
        "[[1 / 2, 1 / 2], [1 / 2, 1 / 2]]" 0]
    by (simp add: e2 g2 u)
  ultimately show ?thesis using e1 e2 by simp
qed




text \<open>Claim C4. When the model answers every batch with enough rows, \<open>predict\<close> returns a
  list; and every list it returns is as long as the input, carries the input words in order,
  and has equal Predictions at equal words.\<close>

theorem predict_order_preserving:
  "(set_order set_iter \<and> 0 < batch_size \<and> well_shaped P lang \<longrightarrow>
      (\<exists>out. snd (predict P set_iter words lang batch_size) = Inr out))
   \<and> (\<forall>out. snd (predict P set_iter words lang batch_size) = Inr out \<longrightarrow>
        length out = length words
        \<and> (\<forall>i<length words. word (out ! i) = words ! i)
        \<and> (\<forall>i<length words. \<forall>j<length words. words ! i = words ! j \<longrightarrow> out ! i = out ! j))"
proof (intro conjI impI allI)
  assume a: "set_order set_iter \<and> 0 < batch_size \<and> well_shaped P lang"
  define valid where
    "valid = sort_key length (set_iter (filter (\<lambda>w. \<not> degenerate P lang w) words))"
  have sv: "set valid = {w \<in> set words. \<not> degenerate P lang w}"
    using a by (auto simp: valid_def set_order_def)
  have un: "\<Union>(set ` set (u_batchify valid batch_size)) = set valid"
    using a by (simp add: Union_u_batchify)
  have "\<forall>tb\<in>set (u_batchify valid batch_size).
          \<exists>outs ps. generate P (make_batch P lang tb) = Inr (outs, ps)
             \<and> length tb \<le> length outs \<and> length tb \<le> length ps"
    using a by (simp add: well_shaped_def)
  from predict_batches_dom [OF this, of Map.empty]
  obtain bp where bp: "snd (predict_batch P valid batch_size lang) = Inr bp"
    and d: "set valid \<subseteq> dom bp"
    unfolding predict_batch_def un by auto
  have "set words \<subseteq> dom ((\<lambda>w. if w \<in> set words \<and> degenerate P lang w then Some ([], [])
                             else None) ++ bp)"
    using d sv by (auto simp: map_add_def split: option.splits)
  from assemble_dom [OF this, of P]
  show "\<exists>out. snd (predict P set_iter words lang batch_size) = Inr out"
    using bp by (simp add: predict_unfold Let_def valid_def [symmetric])
next
  fix out
  assume "snd (predict P set_iter words lang batch_size) = Inr out"
  then obtain m where "assemble P m words = Inr out"
    by (blast dest: predict_snd_Inr)
  then have out: "out = map (\<lambda>w. make_prediction P w (the (m w))) words"
    by (simp add: assemble_Inr)
  show "length out = length words" by (simp add: out)
  show "\<And>i. i < length words \<Longrightarrow> word (out ! i) = words ! i"
    by (simp add: out make_prediction_def split: prod.splits)
  show "\<And>i j. i < length words \<Longrightarrow> j < length words \<Longrightarrow> words ! i = words ! j \<Longrightarrow>
      out ! i = out ! j"
    by (simp add: out)
qed

text \<open>Witness for C4: a duplicated word around a degenerate one.\<close>

theorem predict_order_preserving_witness:
  "\<exists>out. snd (predict (toy_predictor echo_generate) remdups [''bb'', ''!'', ''bb''] ''en_us'' 2)
       = Inr out
     \<and> length out = 3 \<and> word (out ! 0) = ''bb'' \<and> word (out ! 1) = ''!''
     \<and> word (out ! 2) = ''bb'' \<and> out ! 0 = out ! 2"
proof -
  note t = predict_order_preserving [of remdups 2 "toy_predictor echo_generate" "''en_us''"
      "[''bb'', ''!'', ''bb'']"]
  from t set_order_remdups well_shaped_echo [of "''en_us''"]
  obtain out where o: "snd (predict (toy_predictor echo_generate) remdups
      [''bb'', ''!'', ''bb''] ''en_us'' 2) = Inr out"
    by auto
  with t have l: "length out = length [''bb'', ''!'', ''bb'']"
    and w: "\<forall>i<length [''bb'', ''!'', ''bb'']. word (out ! i) = [''bb'', ''!'', ''bb''] ! i"
    and e: "\<forall>i<length [''bb'', ''!'', ''bb'']. \<forall>j<length [''bb'', ''!'', ''bb''].
        [''bb'', ''!'', ''bb''] ! i = [''bb'', ''!'', ''bb''] ! j \<longrightarrow> out ! i = out ! j"
    by blast+
  from w have "word (out ! 0) = ''bb''" "word (out ! 1) = ''!''" "word (out ! 2) = ''bb''"
    by simp_all
  moreover from e have "out ! 0 = out ! 2"
    by (elim allE [of _ 0] allE [of _ 2]) simp
  ultimately show ?thesis using o l by simp
qed

text \<open>Claim C5, amended. For a model whose stored answer for a text depends on that text alone,
  two positive batch sizes give the same Predictions.\<close>

theorem predict_batch_size_invariant:
  assumes "set_order set_iter" and "rowwise P lang g" and "0 < b1" and "0 < b2"
  shows "snd (predict P set_iter words lang b1) = snd (predict P set_iter words lang b2)"
  using assms by (simp add: predict_rowwise)

text \<open>Witness for C5, amended: batch sizes 1 and 3 with the length model.\<close>

theorem predict_batch_size_invariant_witness:
  "snd (predict (toy_predictor len_generate) remdups [''a'', ''!'', ''bb'', ''a''] ''en_us'' 1) =
   snd (predict (toy_predictor len_generate) remdups [''a'', ''!'', ''bb'', ''a''] ''en_us'' 3)"
  using predict_batch_size_invariant [OF set_order_remdups rowwise_len, of 1 3] by simp

text \<open>Counterexample to C5 as stated: the echo model is deterministic, and the Prediction of
  \<open>a\<close> changes with the batch size, since batch size 2 pads its row.\<close>

theorem predict_batch_size_counterexample:
  "snd (predict (toy_predictor echo_generate) remdups [''a'', ''bb''] ''en_us'' 1) \<noteq>
   snd (predict (toy_predictor echo_generate) remdups [''a'', ''bb''] ''en_us'' 2)"
  by (simp add: toy_defs)

text \<open>Claim C7, amended. For a model whose stored answer for a text depends on that text alone,
  the Predictions do not depend on the order in which the set of words is iterated.\<close>

theorem predict_set_order_independent:
  assumes "set_order set_iter1" and "set_order set_iter2" and "rowwise P lang g"
    and "0 < batch_size"
  shows "snd (predict P set_iter1 words lang batch_size) =
         snd (predict P set_iter2 words lang batch_size)"
  using assms by (simp add: predict_rowwise)

text \<open>Witness for C7, amended: two iteration orders with the length model.\<close>

theorem predict_set_order_independent_witness:
  "snd (predict (toy_predictor len_generate) remdups [''a'', ''b'', ''c'', ''dd''] ''en_us'' 2) =
   snd (predict (toy_predictor len_generate) (rev \<circ> remdups) [''a'', ''b'', ''c'', ''dd'']
          ''en_us'' 2)"
  using predict_set_order_independent
    [OF set_order_remdups set_order_rev_remdups rowwise_len, of 2] by simp

text \<open>Counterexample to C7 as stated: the same model, tokenizers, words and batch size, and two
  iteration orders of the same set; words of equal length land in different batches and the
  Predictions differ.\<close>

theorem predict_set_order_counterexample:
  "set_order remdups \<and> set_order (rev \<circ> remdups) \<and>
   snd (predict (toy_predictor echo_generate) remdups [''a'', ''b'', ''c'', ''dd''] ''en_us'' 2) \<noteq>
   snd (predict (toy_predictor echo_generate) (rev \<circ> remdups) [''a'', ''b'', ''c'', ''dd'']
          ''en_us'' 2)"
  by (simp add: set_order_remdups set_order_rev_remdups toy_defs)

text \<open>Claim C6. A word of the input whose decoded input is empty is recorded by the loop of
  lines 53-60 with the empty token and probability sequences and is not added to
  \<open>valid_texts\<close>; it is in no chunk handed to \<^verbatim>\<open>model.generate\<close>; the dictionary of
  line 65 still holds the empty sequences for it; every list \<open>predict\<close> returns carries
  for it the Prediction made from the empty sequences, with confidence \<open>0\<close> and with the
  phonemes that the phoneme tokenizer decodes from the empty sequence; such a list
  is returned whenever the model answers every batch with enough rows; and when every word
  of the input is such a word, \<^verbatim>\<open>model.generate\<close> is not called at all and the list is
  returned whatever the model is.\<close>

theorem degenerate_word_never_reaches_model:
  assumes "set_order set_iter" and "degenerate P lang w" and "w \<in> set words"
  shows "fst (prefilter P lang words (Map.empty, [])) w = Some ([], [])
       \<and> w \<notin> set (snd (prefilter P lang words (Map.empty, [])))
       \<and> (\<forall>(tb, b)\<in>set (fst (predict P set_iter words lang batch_size)).
            w \<notin> set tb \<and> b = make_batch P lang tb)
       \<and> (\<forall>m. stored_predictions P set_iter words lang batch_size = Inr m \<longrightarrow>
            m w = Some ([], []))
       \<and> (\<forall>out. snd (predict P set_iter words lang batch_size) = Inr out \<longrightarrow>
            (\<forall>i<length words. words ! i = w \<longrightarrow>
               out ! i = make_prediction P w ([], [])
               \<and> phonemes (out ! i) = concat (phoneme_decode P [] True)
               \<and> (phoneme_decode P [] True = [] \<longrightarrow> phonemes (out ! i) = [])
               \<and> token_probs (out ! i) = [] \<and> confidence (out ! i) = 0))
       \<and> (0 < batch_size \<and> well_shaped P lang \<longrightarrow>
            (\<exists>out. snd (predict P set_iter words lang batch_size) = Inr out))
       \<and> ((\<forall>v\<in>set words. degenerate P lang v) \<longrightarrow>
            predict P set_iter words lang batch_size =
              ([], Inr (map (\<lambda>v. make_prediction P v ([], [])) words)))"
proof -
  define valid where
    "valid = sort_key length (set_iter (filter (\<lambda>w. \<not> degenerate P lang w) words))"
  have wv: "w \<notin> set valid"
    using assms(1,2) by (auto simp: valid_def set_order_def)
  have nb: "w \<notin> \<Union>(set ` set (u_batchify valid batch_size))"
    using wv by (auto dest: u_batchify_subset)
  have pre: "fst (prefilter P lang words (Map.empty, [])) w = Some ([], [])"
    using assms(2,3) by (simp add: prefilter_eq)
  have ins: "w \<notin> set (snd (prefilter P lang words (Map.empty, [])))"
    using assms(2) by (simp add: prefilter_eq)
  have calls: "\<forall>(tb, b)\<in>set (fst (predict P set_iter words lang batch_size)).
            w \<notin> set tb \<and> b = make_batch P lang tb"
  proof (clarify, intro conjI notI)
    fix tb b
    assume c: "(tb, b) \<in> set (fst (predict P set_iter words lang batch_size))"
    then have c': "(tb, b) \<in> set (fst (predict_batches P lang Map.empty
                      (u_batchify valid batch_size)))"
      by (simp add: predict_fst valid_def predict_batch_def)
    from predict_batches_calls [OF c']
    show "b = make_batch P lang tb" by simp
    assume "w \<in> set tb"
    with predict_batches_calls [OF c'] nb show False by auto
  qed
  have stored: "\<forall>m. stored_predictions P set_iter words lang batch_size = Inr m \<longrightarrow>
            m w = Some ([], [])"
    using assms by (blast intro: stored_predictions_degenerate)
  have res: "\<forall>out. snd (predict P set_iter words lang batch_size) = Inr out \<longrightarrow>
            (\<forall>i<length words. words ! i = w \<longrightarrow>
               out ! i = make_prediction P w ([], [])
               \<and> phonemes (out ! i) = concat (phoneme_decode P [] True)
               \<and> (phoneme_decode P [] True = [] \<longrightarrow> phonemes (out ! i) = [])
               \<and> token_probs (out ! i) = [] \<and> confidence (out ! i) = 0)"
  proof (intro allI impI)
    fix out i
    assume o: "snd (predict P set_iter words lang batch_size) = Inr out"
      and i: "i < length words" and wi: "words ! i = w"
    from o obtain m where sp: "stored_predictions P set_iter words lang batch_size = Inr m"
      and a: "assemble P m words = Inr out"
      by (auto simp: predict_stored split: sum.splits)
    from stored sp have "m w = Some ([], [])" by simp
    with assemble_Inr [OF a] i wi
    have "out ! i = make_prediction P w ([], [])" by simp
    then show "out ! i = make_prediction P w ([], [])
               \<and> phonemes (out ! i) = concat (phoneme_decode P [] True)
               \<and> (phoneme_decode P [] True = [] \<longrightarrow> phonemes (out ! i) = [])
               \<and> token_probs (out ! i) = [] \<and> confidence (out ! i) = 0"
      by (simp add: make_prediction_def u_product_def)
  qed
  have ret: "0 < batch_size \<and> well_shaped P lang \<longrightarrow>
            (\<exists>out. snd (predict P set_iter words lang batch_size) = Inr out)"
    using assms(1) by (blast intro: predict_returns)
  have all: "(\<forall>v\<in>set words. degenerate P lang v) \<longrightarrow>
            predict P set_iter words lang batch_size =
              ([], Inr (map (\<lambda>v. make_prediction P v ([], [])) words))"
    using assms(1) by (blast intro: predict_all_degenerate)
  from pre ins calls stored res ret all show ?thesis by (intro conjI)
qed

text \<open>Witness for C6: the only call made for \<open>a\<close>, \<open>!\<close>, \<open>bb\<close> holds \<open>a\<close> and \<open>bb\<close>,
  and the Prediction of \<open>!\<close> is the empty one; for \<open>!\<close> and \<open>!!\<close> alone a model that
  always raises is never called.\<close>

theorem degenerate_word_never_reaches_model_witness:
  "degenerate (toy_predictor echo_generate) ''en_us'' ''!''
   \<and> map fst (fst (predict (toy_predictor echo_generate) remdups [''a'', ''!'', ''bb'']
          ''en_us'' 2)) = [[''a'', ''bb'']]
   \<and> ''!'' \<notin> \<Union>(set ` fst ` set (fst (predict (toy_predictor echo_generate) remdups
          [''a'', ''!'', ''bb''] ''en_us'' 2)))
   \<and> (\<exists>out. snd (predict (toy_predictor echo_generate) remdups [''a'', ''!'', ''bb'']
          ''en_us'' 2) = Inr out
        \<and> out ! 1 = \<lparr>word = ''!'', phonemes = [], phoneme_tokens = [], confidence = 0,
                      token_probs = []\<rparr>)
   \<and> predict (toy_predictor failing_generate) remdups [''!'', ''!!''] ''en_us'' 2 =
       ([], Inr [\<lparr>word = ''!'', phonemes = [], phoneme_tokens = [], confidence = 0,
                  token_probs = []\<rparr>,
                 \<lparr>word = ''!!'', phonemes = [], phoneme_tokens = [], confidence = 0,
                  token_probs = []\<rparr>])"
proof -
  have d: "degenerate (toy_predictor echo_generate) ''en_us'' ''!''"
    by (simp add: degenerate_def toy_predictor_def toy_tokenizer_def toy_text_decode_def)
  have d': "degenerate (toy_predictor failing_generate) ''en_us'' ''!''"
    "degenerate (toy_predictor failing_generate) ''en_us'' ''!!''"
    by (simp_all add: degenerate_def toy_predictor_def toy_tokenizer_def toy_text_decode_def)
  have mp: "make_prediction (toy_predictor gen) v ([], []) =
      \<lparr>word = v, phonemes = [], phoneme_tokens = [], confidence = 0, token_probs = []\<rparr>" for gen v
    by (simp add: make_prediction_def toy_predictor_def toy_phoneme_decode_def u_product_def)
  have c: "map fst (fst (predict (toy_predictor echo_generate) remdups [''a'', ''!'', ''bb'']
          ''en_us'' 2)) = [[''a'', ''bb'']]"
    by (simp add: toy_defs)
  note t = degenerate_word_never_reaches_model [OF set_order_remdups d,
        of "[''a'', ''!'', ''bb'']" 2]
  have n: "''!'' \<notin> \<Union>(set ` fst ` set (fst (predict (toy_predictor echo_generate) remdups
          [''a'', ''!'', ''bb''] ''en_us'' 2)))"
    using t by (auto simp: case_prod_unfold)
  from t well_shaped_echo [of "''en_us''"]
  obtain out where o: "snd (predict (toy_predictor echo_generate) remdups
      [''a'', ''!'', ''bb''] ''en_us'' 2) = Inr out"
    by auto
  with t have "\<forall>i<length [''a'', ''!'', ''bb'']. [''a'', ''!'', ''bb''] ! i = ''!'' \<longrightarrow>
      out ! i = make_prediction (toy_predictor echo_generate) ''!'' ([], [])"
    by simp
  then have o1: "out ! 1 = make_prediction (toy_predictor echo_generate) ''!'' ([], [])"
    by (elim allE [of _ 1]) simp
  have a: "predict (toy_predictor failing_generate) remdups [''!'', ''!!''] ''en_us'' 2 =
       ([], Inr (map (\<lambda>v. make_prediction (toy_predictor failing_generate) v ([], []))
                   [''!'', ''!!'']))"
    using degenerate_word_never_reaches_model [OF set_order_remdups d'(1),
        of "[''!'', ''!!'']" 2] d'
    by simp
  from d c n o o1 a show ?thesis by (simp add: mp)
qed

section \<open>The claim about \<^verbatim>\<open>Infer.__call__\<close>\<close>

lemma str_replace_single: "str_replace [x] [] s = filter (\<lambda>c. c \<noteq> x) s"
proof (induction s)
  case Nil
  then show ?case by (simp add: str_replace.simps)
next
  case (Cons a s)
  then show ?case by (subst str_replace.simps) auto
qed

lemma str_replace_pair: "str_replace '']['' '' '' s = fold_pairs s"
proof (induction s rule: fold_pairs.induct)
  case (1 c d r)
  then show ?case by (subst str_replace.simps) auto
qed (simp_all add: str_replace.simps)

lemma strip_brackets_eq:
  "strip_brackets r = filter (\<lambda>c. c \<noteq> CHR '']'') (filter (\<lambda>c. c \<noteq> CHR ''['') (fold_pairs r))"
  by (simp add: strip_brackets_def str_replace_single str_replace_pair)

lemma fold_pairs_append: "CHR '']'' \<notin> set p \<Longrightarrow> s \<noteq> [] \<Longrightarrow> fold_pairs (p @ s) = p @ fold_pairs s"
proof (induction p)
  case Nil
  then show ?case by simp
next
  case (Cons a p)
  then obtain x xs where "p @ s = x # xs" by (cases "p @ s") auto
  with Cons show ?case by auto
qed

lemma strip_brackets_tail:
  "\<forall>p\<in>set (p # ps). CHR ''['' \<notin> set p \<and> CHR '']'' \<notin> set p \<Longrightarrow>
   filter (\<lambda>c. c \<noteq> CHR '']'') (filter (\<lambda>c. c \<noteq> CHR ''['')
      (fold_pairs (p @ CHR '']'' # bracketed ps))) = str_join '' '' (p # ps)"
proof (induction ps arbitrary: p)
  case Nil
  then show ?case by (auto simp: bracketed_def fold_pairs_append filter_id_conv)
next
  case (Cons q ps)
  have "fold_pairs (p @ CHR '']'' # bracketed (q # ps)) =
        p @ CHR '' '' # fold_pairs (q @ CHR '']'' # bracketed ps)"
    using Cons.prems by (simp add: bracketed_def fold_pairs_append)
  moreover have "filter (\<lambda>c. c \<noteq> CHR '']'') (filter (\<lambda>c. c \<noteq> CHR ''['')
      (fold_pairs (q @ CHR '']'' # bracketed ps))) = str_join '' '' (q # ps)"
    using Cons.prems by (intro Cons.IH) auto
  ultimately show ?case using Cons.prems by (auto simp: filter_id_conv)
qed

lemma strip_brackets_bracketed:
  assumes "\<forall>p\<in>set ps. CHR ''['' \<notin> set p \<and> CHR '']'' \<notin> set p"
  shows "strip_brackets (bracketed ps) = str_join '' '' ps"
proof (cases ps)
  case Nil
  then show ?thesis by (simp add: strip_brackets_eq bracketed_def)
next
  case (Cons p qs)
  have "bracketed ps = ''['' @ (p @ CHR '']'' # bracketed qs)"
    by (simp add: Cons bracketed_def)
  moreover have "fold_pairs (''['' @ (p @ CHR '']'' # bracketed qs)) =
      ''['' @ fold_pairs (p @ CHR '']'' # bracketed qs)"
    by (rule fold_pairs_append) simp_all
  ultimately
  have "fold_pairs (bracketed ps) = ''['' @ fold_pairs (p @ CHR '']'' # bracketed qs)"
    by simp
  then show ?thesis
    using strip_brackets_tail [of p qs] assms Cons by (simp add: strip_brackets_eq)
qed

text \<open>Claim C10. No string that \<^verbatim>\<open>Infer.__call__\<close> returns contains a bracket; the value is a
  list with one string per string of the phonemizer's result (so one per word when the
  phonemizer yields one per word), each the result of the three replacements; and for a
  string made of bracketed, bracket-free phoneme names the result is these names separated
  by exactly one space.\<close>

theorem infer_call_no_brackets:
  "(\<forall>r\<in>set (infer_call phonemise_list words). CHR ''['' \<notin> set r \<and> CHR '']'' \<notin> set r)
   \<and> length (infer_call phonemise_list words) = length (phonemise_list words ''en_us'' 32)
   \<and> (length (phonemise_list words ''en_us'' 32) = length words \<longrightarrow>
        length (infer_call phonemise_list words) = length words)
   \<and> (\<forall>i<length (phonemise_list words ''en_us'' 32).
        infer_call phonemise_list words ! i =
          str_replace '']'' '''' (str_replace ''['' ''''
            (str_replace '']['' '' '' (phonemise_list words ''en_us'' 32 ! i)))
        \<and> (\<forall>ps. (\<forall>p\<in>set ps. CHR ''['' \<notin> set p \<and> CHR '']'' \<notin> set p)
              \<and> phonemise_list words ''en_us'' 32 ! i = bracketed ps \<longrightarrow>
              infer_call phonemise_list words ! i = str_join '' '' ps))"
proof -
  let ?res = "phonemise_list words ''en_us'' 32"
  have nb: "CHR ''['' \<notin> set (strip_brackets r) \<and> CHR '']'' \<notin> set (strip_brackets r)" for r
    by (simp add: strip_brackets_eq)
  have ic: "infer_call phonemise_list words = map strip_brackets ?res"
    by (simp add: infer_call_def)
  have a: "\<forall>r\<in>set (infer_call phonemise_list words). CHR ''['' \<notin> set r \<and> CHR '']'' \<notin> set r"
    using nb by (auto simp: ic)
  have b: "length (infer_call phonemise_list words) = length ?res"
    by (simp add: ic)
  have c: "\<forall>i<length ?res.
        infer_call phonemise_list words ! i =
          str_replace '']'' '''' (str_replace ''['' '''' (str_replace '']['' '' '' (?res ! i)))
        \<and> (\<forall>ps. (\<forall>p\<in>set ps. CHR ''['' \<notin> set p \<and> CHR '']'' \<notin> set p)
              \<and> ?res ! i = bracketed ps \<longrightarrow>
              infer_call phonemise_list words ! i = str_join '' '' ps)"
  proof (intro allI impI conjI)
    fix i assume i: "i < length ?res"
    then show "infer_call phonemise_list words ! i =
          str_replace '']'' '''' (str_replace ''['' '''' (str_replace '']['' '' '' (?res ! i)))"
      by (simp add: ic strip_brackets_def)
    fix ps
    assume "(\<forall>p\<in>set ps. CHR ''['' \<notin> set p \<and> CHR '']'' \<notin> set p) \<and> ?res ! i = bracketed ps"
    with i show "infer_call phonemise_list words ! i = str_join '' '' ps"
      by (simp add: ic strip_brackets_bracketed)
  qed
  show ?thesis
  proof (intro conjI)
    show "\<forall>r\<in>set (infer_call phonemise_list words). CHR ''['' \<notin> set r \<and> CHR '']'' \<notin> set r"
      by (rule a)
    show "length (infer_call phonemise_list words) = length ?res"
      by (rule b)
    show "length ?res = length words \<longrightarrow> length (infer_call phonemise_list words) = length words"
      using b by simp
    show "\<forall>i<length ?res.
        infer_call phonemise_list words ! i =
          str_replace '']'' '''' (str_replace ''['' '''' (str_replace '']['' '' '' (?res ! i)))
        \<and> (\<forall>ps. (\<forall>p\<in>set ps. CHR ''['' \<notin> set p \<and> CHR '']'' \<notin> set p)
              \<and> ?res ! i = bracketed ps \<longrightarrow>
              infer_call phonemise_list words ! i = str_join '' '' ps)"
      by (rule c)
  qed
qed

text \<open>Witness for C10: two words, each with the phonemes \<open>[HH][AY1]\<close>.\<close>

theorem infer_call_no_brackets_witness:
  "infer_call (\<lambda>words lang batch_size. map (\<lambda>w. bracketed [''HH'', ''AY1'']) words) [''hi'', ''yo'']
     = [''HH AY1'', ''HH AY1'']
   \<and> CHR ''['' \<notin> set (infer_call (\<lambda>words lang batch_size. map (\<lambda>w. bracketed [''HH'', ''AY1'']) words) [''hi'', ''yo''] ! 0)"
  using infer_call_no_brackets [of "\<lambda>words lang batch_size. map (\<lambda>w. bracketed [''HH'', ''AY1'']) words" "[''hi'', ''yo'']"]
  by (simp add: infer_call_def strip_brackets_def bracketed_def str_replace.simps)

section \<open>The claim about the checkpoint\<close>

lemma check_model_file:
  "model_file (snd (check_model sha R st)) = model_file st"
  by (simp add: check_model_def Let_def split: sum.splits option.splits)

lemma check_model_present:
  "model_file st = Some content \<Longrightarrow>
   check_model sha R st =
     (case ptr_response R of
        Inl e \<Rightarrow> (Inl e, st)
      | Inr txt \<Rightarrow>
          (case remote_checksum txt of
             None \<Rightarrow> (Inr False, st\<lparr>warnings := warnings st @ [NoRemoteChecksum]\<rparr>)
           | Some d \<Rightarrow> (Inr (d = sha content), st)))"
  by (simp add: check_model_def remote_checksum_def Let_def split: sum.splits)

lemma ensure_download_present:
  "model_file st = Some content \<Longrightarrow> ensure_download sha R st = (Inr (), st)"
  by (simp add: ensure_download_def download_def)

lemma ensure_download_absent:
  "model_file st = None \<Longrightarrow>
   ensure_download sha R st =
     (case model_response R of
        RequestFails e \<Rightarrow> (Inl e, st)
      | OpenFails e \<Rightarrow> (Inl e, st)
      | CopyFails e part \<Rightarrow> (Inl e, st\<lparr>model_file := Some part\<rparr>)
      | Complete content \<Rightarrow> (Inr (), st\<lparr>model_file := Some content\<rparr>))"
  by (simp add: ensure_download_def download_def split: transfer.splits)

lemma py_split_lfs_pointer:
  "py_split lfs_pointer =
     [''version'', ''https://git-lfs.github.com/spec/v1'', ''oid'', ''sha256:good'', ''size'', ''4'']"
  by (simp add: lfs_pointer_def py_split.simps is_space_def)

lemma remote_checksum_lfs_pointer: "remote_checksum lfs_pointer = Some ''good''"
  by (simp add: remote_checksum_def py_split_lfs_pointer startswith_def)

text \<open>Claim C9, amended. When the checkpoint file is absent and the transfer does not
  complete, the construction raises the transfer's exception: with the local state as it
  was when the request or the opening of the file fails, and with the part written so far
  left in the file when the copy fails. When the file is present and its checksum differs
  from the remote one, the construction only adds a warning and goes on to load the file:
  it completes exactly when the loader accepts the file.\<close>

theorem infer_init_checkpoint_policy:
  "(model_file st = None \<and> model_response R = RequestFails e \<longrightarrow>
      infer_init sha from_checkpoint R st = (Inl e, st))
   \<and> (model_file st = None \<and> model_response R = OpenFails e \<longrightarrow>
      infer_init sha from_checkpoint R st = (Inl e, st))
   \<and> (model_file st = None \<and> model_response R = CopyFails e part \<longrightarrow>
      infer_init sha from_checkpoint R st = (Inl e, st\<lparr>model_file := Some part\<rparr>))
   \<and> (model_file st = None \<and> (\<forall>c. model_response R \<noteq> Complete c) \<longrightarrow>
      (\<exists>e' st'. infer_init sha from_checkpoint R st = (Inl e', st')))
   \<and> (model_file st = Some content \<and> ptr_response R = Inr txt
        \<and> remote_checksum txt = Some d \<and> d \<noteq> sha content \<longrightarrow>
      infer_init sha from_checkpoint R st =
        (case from_checkpoint content of
           Inl e' \<Rightarrow> Inl e'
         | Inr m \<Rightarrow> Inr \<lparr>infer_model = m, infer_lang = ''en_us'', infer_batch_size = 32\<rparr>,
         st\<lparr>warnings := warnings st @ [ChecksumMismatch]\<rparr>))"
proof (intro conjI impI)
  assume "model_file st = None \<and> model_response R = RequestFails e"
  then show "infer_init sha from_checkpoint R st = (Inl e, st)"
    by (simp add: infer_init_def ensure_download_absent)
next
  assume "model_file st = None \<and> model_response R = OpenFails e"
  then show "infer_init sha from_checkpoint R st = (Inl e, st)"
    by (simp add: infer_init_def ensure_download_absent)
next
  assume "model_file st = None \<and> model_response R = CopyFails e part"
  then show "infer_init sha from_checkpoint R st = (Inl e, st\<lparr>model_file := Some part\<rparr>)"
    by (simp add: infer_init_def ensure_download_absent)
next
  assume "model_file st = None \<and> (\<forall>c. model_response R \<noteq> Complete c)"
  then show "\<exists>e' st'. infer_init sha from_checkpoint R st = (Inl e', st')"
    by (cases "model_response R") (simp_all add: infer_init_def ensure_download_absent)
next
  assume "model_file st = Some content \<and> ptr_response R = Inr txt
        \<and> remote_checksum txt = Some d \<and> d \<noteq> sha content"
  then show "infer_init sha from_checkpoint R st =
        (case from_checkpoint content of
           Inl e' \<Rightarrow> Inl e'
         | Inr m \<Rightarrow> Inr \<lparr>infer_model = m, infer_lang = ''en_us'', infer_batch_size = 32\<rparr>,
         st\<lparr>warnings := warnings st @ [ChecksumMismatch]\<rparr>)"
    by (auto simp: infer_init_def ensure_download_present check_updates_def check_model_present
        split: sum.splits)
qed

text \<open>Witness for C9, amended: an absent file with a failing request, an absent file with a
  copy that breaks off after \<open>go\<close>, and a present file whose checksum does not match.\<close>

theorem infer_init_checkpoint_policy_witness:
  "infer_init (\<lambda>c. c) (\<lambda>c. Inr c :: py_error + string) (toy_remote (RequestFails HTTPError))
      \<lparr>model_file = None, warnings = []\<rparr>
     = (Inl HTTPError, \<lparr>model_file = None, warnings = []\<rparr>)
   \<and> infer_init (\<lambda>c. c) (\<lambda>c. Inr c :: py_error + string)
      (toy_remote (CopyFails ConnectionError ''go'')) \<lparr>model_file = None, warnings = []\<rparr>
     = (Inl ConnectionError, \<lparr>model_file = Some ''go'', warnings = []\<rparr>)
   \<and> infer_init (\<lambda>c. c) (\<lambda>c. Inr c :: py_error + string) (toy_remote (Complete ''good''))
      \<lparr>model_file = Some ''corrupt'', warnings = []\<rparr>
     = (Inr \<lparr>infer_model = ''corrupt'', infer_lang = ''en_us'', infer_batch_size = 32\<rparr>,
        \<lparr>model_file = Some ''corrupt'', warnings = [ChecksumMismatch]\<rparr>)"
  using infer_init_checkpoint_policy [of "\<lparr>model_file = None, warnings = []\<rparr>"
      "toy_remote (RequestFails HTTPError)" HTTPError "\<lambda>c. c" "\<lambda>c. Inr c :: py_error + string"]
    infer_init_checkpoint_policy [of "\<lparr>model_file = None, warnings = []\<rparr>"
      "toy_remote (CopyFails ConnectionError ''go'')" ConnectionError "\<lambda>c. c"
      "\<lambda>c. Inr c :: py_error + string" "''go''"]
    infer_init_checkpoint_policy [of "\<lparr>model_file = Some ''corrupt'', warnings = []\<rparr>"
      "toy_remote (Complete ''good'')" _ "\<lambda>c. c" "\<lambda>c. Inr c :: py_error + string" _
      "''corrupt''" lfs_pointer "''good''"]
  by (simp add: toy_remote_def remote_checksum_lfs_pointer)

text \<open>Counterexample to C9 as stated: the file is present, the remote checksum is
  \<open>good\<close>, the file's is \<open>corrupt\<close>, the loader accepts the file; the construction
  completes and a warning is all that is issued.\<close>

theorem corrupt_checkpoint_counterexample:
  "remote_checksum lfs_pointer = Some ''good''
   \<and> infer_init (\<lambda>c. c) (\<lambda>c. Inr c :: py_error + string) (toy_remote (Complete ''good''))
      \<lparr>model_file = Some ''corrupt'', warnings = []\<rparr>
     = (Inr \<lparr>infer_model = ''corrupt'', infer_lang = ''en_us'', infer_batch_size = 32\<rparr>,
        \<lparr>model_file = Some ''corrupt'', warnings = [ChecksumMismatch]\<rparr>)"
  by (simp add: remote_checksum_lfs_pointer infer_init_def ensure_download_present
      check_updates_def check_model_present toy_remote_def)

end
